theory Spec2Isabelle
  imports Complex_Main "HOL-Library.Multiset" "HOL-Library.Product_Lexorder"
begin

section \<open>Data model of \<open>trial.py\<close>\<close>

text \<open>
  The exceptions the modelled code can raise.  \<open>RuntimeError\<close> is the
  ``not a good result'' signal of \<open>process_results\<close>; \<open>ValueError\<close> is what
  \<open>random.randrange\<close> raises on an empty range.
\<close>

datatype error = IndexError | ZeroDivisionError | ValueError | RuntimeError

text \<open>The class \<open>Trial.State\<close>.\<close>

datatype State = INIT | PREVIEW | RUNNING | COMPLETED | ABORTED

text \<open>
  One sample delivered by the signal collaborator (\<open>BlockResult\<close>): the 1-based number
  of the flash it belongs to, the signal value and the rank position.  Signal values are
  finite doubles, and a finite double is a real number.
\<close>

record BlockResult =
  image_id :: int
  eeg :: real
  sort_position :: real

text \<open>The helper class \<open>OptionResult\<close>.\<close>

record OptionResult =
  eegs :: "real list"
  sort_positions :: "real list"
  idx :: int
  expected_counts :: int

text \<open>
  The fields of a \<open>Trial\<close> object.  An option is represented by its identifier (the
  pygame surface that goes with it is opaque to everything modelled here); the window
  size, the font and the colour table only feed drawing calls and are left out.
\<close>

record Trial =
  mode :: State
  preview_time :: real
  image_time :: real
  options :: "int list"
  min_repeat :: int
  max_repeat :: int
  index_list :: "nat list"
  option_counts :: "int list"
  index_ptr :: int
  selected_index_ptr :: "nat option"
  results :: "BlockResult list option"
  option_results :: "OptionResult list option"

text \<open>
  Python list indexing \<open>xs[i]\<close>: a negative index counts from the end, anything outside
  \<open>-len(xs) .. len(xs) - 1\<close> raises \<open>IndexError\<close>.
\<close>

definition py_get :: "'a list \<Rightarrow> int \<Rightarrow> error + 'a" where
  "py_get xs i =
     (if 0 \<le> i \<and> i < int (length xs) then Inr (xs ! nat i)
      else if i < 0 \<and> - int (length xs) \<le> i then Inr (xs ! nat (int (length xs) + i))
      else Inl IndexError)"

section \<open>The state machine\<close>

text \<open>
  What a call of \<open>show_next_image\<close> puts on the screen: the preview grid of all options,
  the flash of one option (its position in \<open>options\<close>), or nothing.  The drawing calls
  themselves and the notification \<open>bci.mark_unlabeled()\<close> are effects on external
  objects; they are assumed not to raise.
\<close>

datatype frame = PreviewFrame | FlashFrame nat | NoFrame

text \<open>\<open>Trial.reset\<close>: returns the preview time together with the updated object.\<close>

definition reset :: "Trial \<Rightarrow> real \<times> Trial" where
  "reset t =
     (preview_time t,
      t\<lparr>mode := INIT, index_ptr := 0, selected_index_ptr := None, results := None\<rparr>)"

text \<open>
  \<open>Trial.show_next_image\<close>.  The result pairs what the call returns or raises with the
  object as the call leaves it.  In the \<open>INIT\<close> branch \<open>_display_preview_image\<close> divides
  the window size by \<open>int(math.ceil(math.sqrt(len(self.options))))\<close>, which is zero
  exactly when there are no options; the mode has been set to \<open>PREVIEW\<close> by then.  In the
  flash branch \<open>self.options[im_idx]\<close> is a list access with a non-negative index.
\<close>

definition show_next_image :: "Trial \<Rightarrow> (error + real \<times> frame) \<times> Trial" where
  "show_next_image t =
     (if mode t = INIT then
        (let t1 = t\<lparr>mode := PREVIEW\<rparr>
         in if options t = [] then (Inl ZeroDivisionError, t1)
            else (Inr (preview_time t, PreviewFrame), t1))
      else if mode t = PREVIEW \<or> mode t = RUNNING then
        (let t1 = (if mode t = PREVIEW then t\<lparr>mode := RUNNING, index_ptr := 0\<rparr>
                   else t\<lparr>index_ptr := index_ptr t + 1\<rparr>)
         in if index_ptr t1 \<ge> int (length (index_list t1)) then
              (Inr (0, NoFrame), t1\<lparr>mode := COMPLETED\<rparr>)
            else
              (case py_get (index_list t1) (index_ptr t1) of
                 Inl e \<Rightarrow> (Inl e, t1)
               | Inr im_idx \<Rightarrow>
                   if im_idx < length (options t1)
                   then (Inr (image_time t1, FlashFrame im_idx), t1)
                   else (Inl IndexError, t1)))
      else (Inr (0, NoFrame), t))"

text \<open>
  The timer loop of \<open>RSVPDisplay.do_loop\<close> calls \<open>show_next_image\<close> once per timer
  event; an exception ends the loop.  \<open>advance_n n t\<close> lists, for up to \<open>n\<close> consecutive
  calls, what each call returned and the object after it.
\<close>

fun advance_n :: "nat \<Rightarrow> Trial \<Rightarrow> ((error + real \<times> frame) \<times> Trial) list" where
  "advance_n 0 t = []"
| "advance_n (Suc n) t =
     (case show_next_image t of
        (Inl e, t') \<Rightarrow> [(Inl e, t')]
      | (Inr r, t') \<Rightarrow> (Inr r, t') # advance_n n t')"

section \<open>Building the presentation order\<close>

text \<open>
  The pseudo-random generator of Python's \<open>random\<close> module is a tape of raw draws
  \<open>src :: nat \<Rightarrow> nat\<close> read at a position that every draw advances.

  \<open>random.randrange(start, stop)\<close> raises \<open>ValueError\<close> when the range
  \<open>start .. stop - 1\<close> is empty and returns a member of that range otherwise.
\<close>

definition randrange :: "(nat \<Rightarrow> nat) \<Rightarrow> nat \<Rightarrow> int \<Rightarrow> int \<Rightarrow> error + int \<times> nat" where
  "randrange src pos start stop =
     (if start < stop then Inr (start + int (src pos mod nat (stop - start)), Suc pos)
      else Inl ValueError)"

text \<open>
  The list comprehension \<open>[random.randrange(lo, hi) for _ in self.options]\<close>: one draw
  per option, left to right; the first exception ends it.
\<close>

fun draw_counts ::
  "(nat \<Rightarrow> nat) \<Rightarrow> nat \<Rightarrow> int \<Rightarrow> int \<Rightarrow> 'a list \<Rightarrow> error + int list \<times> nat" where
  "draw_counts src pos lo hi [] = Inr ([], pos)"
| "draw_counts src pos lo hi (opt # opts) =
     (case randrange src pos lo hi of
        Inl e \<Rightarrow> Inl e
      | Inr (c, pos') \<Rightarrow>
          (case draw_counts src pos' lo hi opts of
             Inl e \<Rightarrow> Inl e
           | Inr (cs, pos'') \<Rightarrow> Inr (c # cs, pos'')))"

text \<open>
  \<open>random.shuffle(x)\<close> is the Fisher-Yates loop
  \<^verbatim>\<open>for i in reversed(xrange(1, len(x))): j = int(random() * (i+1)); x[i], x[j] = x[j], x[i]\<close>.
  \<open>shuffle_from src pos i xs\<close> runs it from index \<open>i\<close> down to 1.
\<close>

fun shuffle_from :: "(nat \<Rightarrow> nat) \<Rightarrow> nat \<Rightarrow> nat \<Rightarrow> 'a list \<Rightarrow> 'a list \<times> nat" where
  "shuffle_from src pos 0 xs = (xs, pos)"
| "shuffle_from src pos (Suc k) xs =
     (let i = Suc k; j = src pos mod (i + 1)
      in shuffle_from src (Suc pos) k (xs[i := xs ! j, j := xs ! i]))"

definition shuffle :: "(nat \<Rightarrow> nat) \<Rightarrow> nat \<Rightarrow> 'a list \<Rightarrow> 'a list \<times> nat" where
  "shuffle src pos xs = shuffle_from src pos (length xs - 1) xs"

text \<open>
  The heap of \<open>_nonadjacent\<close> holds pairs \<open>(-count, key)\<close>, compared as Python compares
  tuples: lexicographically.  \<open>heapq.heappop\<close> removes and returns the smallest item;
  \<open>heapq.heapreplace\<close> removes and returns the smallest item and then adds the new one.
  The heap is kept as the list of its items: which item is returned does not depend on
  how \<open>heapq\<close> arranges them.
\<close>

definition heappop :: "(int \<times> nat) list \<Rightarrow> (int \<times> nat) \<times> (int \<times> nat) list" where
  "heappop heap = (Min (set heap), remove1 (Min (set heap)) heap)"

definition heapreplace ::
  "(int \<times> nat) list \<Rightarrow> int \<times> nat \<Rightarrow> (int \<times> nat) \<times> (int \<times> nat) list" where
  "heapreplace heap item = (Min (set heap), item # remove1 (Min (set heap)) heap)"

text \<open>
  The \<open>while heap:\<close> loop of \<open>_nonadjacent\<close>.  The pair of variables \<open>count, key\<close> is
  \<open>None\<close> for its initial value \<open>0, None\<close> and \<open>Some (cnt, key)\<close> once an item has been
  taken from the heap; \<open>out\<close> collects the yielded keys.  The loop need not end (a count of
  zero in the heap keeps it running), so not returning is the value \<open>None\<close>.
\<close>

partial_function (option) nonadjacent_loop ::
  "(int \<times> nat) list \<Rightarrow> (int \<times> nat) option \<Rightarrow> nat list
     \<Rightarrow> ((int \<times> nat) option \<times> nat list) option" where
  "nonadjacent_loop heap held out =
     (if heap = [] then Some (held, out)
      else
        (let popped = (case held of
                         None \<Rightarrow> heappop heap
                       | Some (cnt, key) \<Rightarrow>
                           if cnt \<noteq> 0 then heapreplace heap (cnt, key) else heappop heap)
         in nonadjacent_loop (snd popped) (Some (fst (fst popped) + 1, snd (fst popped)))
              (out @ [snd (fst popped)])))"

declare nonadjacent_loop.simps [code]

text \<open>
  \<open>Trial._nonadjacent\<close>, collected into a list: the loop, then the trailing
  \<open>for index in xrange(-count): yield key\<close>.
\<close>

definition nonadjacent :: "int list \<Rightarrow> nat list option" where
  "nonadjacent counts =
     (case nonadjacent_loop (map (\<lambda>(key, cnt). (- cnt, key)) (enumerate 0 counts)) None [] of
        None \<Rightarrow> None
      | Some (None, out) \<Rightarrow> Some out
      | Some (Some (cnt, key), out) \<Rightarrow> Some (out @ replicate (nat (- cnt)) key))"

text \<open>
  \<open>Trial._construct_trial\<close>: the counts, the greedy order, the shuffle.  The result is
  \<open>None\<close> when the call does not return.
\<close>

definition construct_trial ::
  "(nat \<Rightarrow> nat) \<Rightarrow> nat \<Rightarrow> int \<Rightarrow> int \<Rightarrow> 'a list \<Rightarrow> (error + nat list \<times> int list \<times> nat) option" where
  "construct_trial src pos lo hi opts =
     (case draw_counts src pos lo hi opts of
        Inl e \<Rightarrow> Some (Inl e)
      | Inr (counts, pos1) \<Rightarrow>
          (case nonadjacent counts of
             None \<Rightarrow> None
           | Some order \<Rightarrow>
               (let (order', pos2) = shuffle src pos1 order
                in Some (Inr (order', counts, pos2)))))"

text \<open>
  \<open>Trial.__init__\<close>.  The shuffle of the colour table at its end only permutes 36 equal
  colours and is left out.
\<close>

definition Trial_init ::
  "(nat \<Rightarrow> nat) \<Rightarrow> nat \<Rightarrow> int list \<Rightarrow> real \<Rightarrow> real \<Rightarrow> int \<Rightarrow> int \<Rightarrow> (error + Trial) option" where
  "Trial_init src pos opts ptime itime minr maxr =
     (let lo = max 1 minr; hi = max lo maxr
      in case construct_trial src pos lo hi opts of
           None \<Rightarrow> None
         | Some (Inl e) \<Rightarrow> Some (Inl e)
         | Some (Inr (order, counts, pos')) \<Rightarrow>
             Some (Inr \<lparr>mode = INIT, preview_time = ptime, image_time = itime,
                        options = opts, min_repeat = lo, max_repeat = hi,
                        index_list = order, option_counts = counts, index_ptr = 0,
                        selected_index_ptr = None, results = None,
                        option_results = None\<rparr>))"

section \<open>Scoring\<close>

subsection \<open>Floating-point values\<close>

text \<open>
  \<open>numpy\<close> and Python compute with IEEE doubles; \<open>numpy\<close> does not raise on a division
  by zero or on an empty mean, it warns and returns an infinity or a NaN.  A value is a
  finite number, one of the two infinities, or NaN.  The two zeros are one value: nothing
  in \<open>process_results\<close> tells them apart, since every divisor that can be zero is a
  standard deviation and so \<open>+0.0\<close>.
\<close>

datatype fl = Fin real | PInf | NInf | NaN

text \<open>Negation, absolute value and comparison do not round.\<close>

fun fl_neg :: "fl \<Rightarrow> fl" where
  "fl_neg (Fin a) = Fin (- a)"
| "fl_neg PInf = NInf"
| "fl_neg NInf = PInf"
| "fl_neg NaN = NaN"

fun fl_abs :: "fl \<Rightarrow> fl" where
  "fl_abs (Fin a) = Fin \<bar>a\<bar>"
| "fl_abs PInf = PInf"
| "fl_abs NInf = PInf"
| "fl_abs NaN = NaN"

text \<open>The comparison \<open>x < y\<close>: false as soon as one side is NaN.\<close>

fun fl_lt :: "fl \<Rightarrow> fl \<Rightarrow> bool" where
  "fl_lt (Fin a) (Fin b) = (a < b)"
| "fl_lt NaN y = False"
| "fl_lt x NaN = False"
| "fl_lt NInf NInf = False"
| "fl_lt NInf y = True"
| "fl_lt x PInf = (x \<noteq> PInf)"
| "fl_lt x y = False"

definition fl_gt :: "fl \<Rightarrow> fl \<Rightarrow> bool" where
  "fl_gt x y = fl_lt y x"

text \<open>
  Everything that rounds is taken from the libraries and is a parameter of the model: the
  subtraction, multiplication and division of doubles, and \<open>np.mean\<close> (which is also
  \<open>np.average\<close> without weights), \<open>np.std\<close> and \<open>np.median\<close>.  What is proved of
  \<open>process_results\<close> for every value of these parameters holds of the program with the
  functions it really calls.
\<close>

record numerics =
  f_sub :: "fl \<Rightarrow> fl \<Rightarrow> fl"
  f_mul :: "fl \<Rightarrow> fl \<Rightarrow> fl"
  f_div :: "fl \<Rightarrow> fl \<Rightarrow> fl"
  np_mean :: "fl list \<Rightarrow> fl"
  np_std :: "fl list \<Rightarrow> fl"
  np_median :: "fl list \<Rightarrow> fl"

text \<open>
  \<open>sorted(xs, key=f)\<close> with floating-point keys.  Python's sort is stable and compares
  keys with \<open><\<close> only.  When no key is NaN that comparison orders the keys totally and
  \<open>sorted\<close> returns the one stable arrangement, which this insertion computes.  With a
  NaN key Python's result depends on the comparisons its algorithm makes; nothing is
  stated of a ranking for that case.
\<close>

fun py_insort_key :: "('a \<Rightarrow> fl) \<Rightarrow> 'a \<Rightarrow> 'a list \<Rightarrow> 'a list" where
  "py_insort_key f x [] = [x]"
| "py_insort_key f x (y # ys) =
     (if fl_lt (f y) (f x) then y # py_insort_key f x ys else x # y # ys)"

definition py_sorted :: "('a \<Rightarrow> fl) \<Rightarrow> 'a list \<Rightarrow> 'a list" where
  "py_sorted f xs = foldr (py_insort_key f) xs []"

subsection \<open>\<open>OptionResult\<close> properties and \<open>process_results\<close>\<close>

text \<open>\<open>average_eeg\<close> is \<open>np.average(self.eegs)\<close>.\<close>

definition average_eeg :: "numerics \<Rightarrow> OptionResult \<Rightarrow> fl" where
  "average_eeg ar r = np_mean ar (map Fin (eegs r))"

text \<open>
  \<open>avg_best_two\<close> is \<open>np.mean(sorted(self.eegs)[:2])\<close>; the samples are finite, so
  \<open>sorted\<close> orders them as numbers.
\<close>

definition avg_best_two :: "numerics \<Rightarrow> OptionResult \<Rightarrow> fl" where
  "avg_best_two ar r = np_mean ar (map Fin (take 2 (sort (eegs r))))"

text \<open>The message type \<open>RankResult\<close>.\<close>

record RankResult =
  option_ids :: "int list"
  confidences :: "fl list"

text \<open>
  The comprehension
  \<^verbatim>\<open>[OptionResult(opt[0], self.option_counts[idx]) for idx, opt in enumerate(self.options)]\<close>
  raises \<open>IndexError\<close> when there are more options than counts.
\<close>

definition new_option_results :: "int list \<Rightarrow> int list \<Rightarrow> error + OptionResult list" where
  "new_option_results opts counts =
     (if length opts \<le> length counts then
        Inr (map (\<lambda>(i, opt). \<lparr>eegs = [], sort_positions = [], idx = opt,
                               expected_counts = counts ! i\<rparr>) (enumerate 0 opts))
      else Inl IndexError)"

text \<open>
  The loop \<open>for result in self.results\<close>: the sample of flash \<open>image_id\<close> goes to the
  option shown by that flash.  The list of option results is updated in place, so what an
  exception leaves behind is returned with it; \<open>all_eegs\<close> is the local list \<open>eegs\<close>.
\<close>

fun collect ::
  "nat list \<Rightarrow> BlockResult list \<Rightarrow> OptionResult list \<Rightarrow> real list
     \<Rightarrow> error option \<times> OptionResult list \<times> real list" where
  "collect order [] ors all_eegs = (None, ors, all_eegs)"
| "collect order (r # rs) ors all_eegs =
     (case py_get order (image_id r - 1) of
        Inl e \<Rightarrow> (Some e, ors, all_eegs)
      | Inr option_idx \<Rightarrow>
          if option_idx < length ors then
            collect order rs
              (ors[option_idx := (ors ! option_idx)
                     \<lparr>eegs := eegs (ors ! option_idx) @ [eeg r],
                      sort_positions := sort_positions (ors ! option_idx) @ [sort_position r]\<rparr>])
              (all_eegs @ [eeg r])
          else (Some IndexError, ors, all_eegs))"

text \<open>The local function \<open>z\<close>, with the two overall statistics it closes over.\<close>

definition z :: "numerics \<Rightarrow> fl \<Rightarrow> fl \<Rightarrow> fl \<Rightarrow> fl" where
  "z ar overall_eeg_med overall_eeg_std v =
     f_div ar (f_sub ar overall_eeg_med v) overall_eeg_std"

text \<open>
  The local function \<open>percentage_correct\<close>: \<open>num_correct * 1.0 / r.expected_counts\<close>.
  \<open>num_correct * 1.0\<close> is the count as a double (a count is held exactly, and so is its
  product with one); the quotient is a Python float divided by an integer, which raises
  \<open>ZeroDivisionError\<close> on zero and is the division of doubles otherwise.
\<close>

definition percentage_correct :: "numerics \<Rightarrow> fl \<Rightarrow> fl \<Rightarrow> OptionResult \<Rightarrow> error + fl" where
  "percentage_correct ar med sd r =
     (let num_correct =
            length (filter (\<lambda>v. fl_gt (fl_abs (z ar med sd (Fin v))) (Fin (1 / 2))) (eegs r))
      in if expected_counts r = 0 then Inl ZeroDivisionError
         else Inr (f_div ar (Fin (real num_correct)) (Fin (real_of_int (expected_counts r)))))"

definition confidence :: "numerics \<Rightarrow> fl \<Rightarrow> fl \<Rightarrow> OptionResult \<Rightarrow> error + fl" where
  "confidence ar med sd r =
     (case percentage_correct ar med sd r of
        Inl e \<Rightarrow> Inl e
      | Inr pc \<Rightarrow> Inr (f_mul ar (z ar med sd (average_eeg ar r)) pc))"

text \<open>A list comprehension whose element expression can raise.\<close>

fun try_map :: "('a \<Rightarrow> error + 'b) \<Rightarrow> 'a list \<Rightarrow> error + 'b list" where
  "try_map f [] = Inr []"
| "try_map f (x # xs) =
     (case f x of
        Inl e \<Rightarrow> Inl e
      | Inr y \<Rightarrow> (case try_map f xs of Inl e \<Rightarrow> Inl e | Inr ys \<Rightarrow> Inr (y # ys)))"

text \<open>
  Lines 162 to 176 of \<open>process_results\<close>: the ranking by \<open>avg_best_two\<close> and the
  \<open>RankResult\<close> filled from it.
\<close>

definition rank_options :: "numerics \<Rightarrow> OptionResult list \<Rightarrow> OptionResult list" where
  "rank_options ar ors = py_sorted (\<lambda>x. fl_neg (avg_best_two ar x)) ors"

definition rank_result :: "numerics \<Rightarrow> OptionResult list \<Rightarrow> real list \<Rightarrow> error + RankResult" where
  "rank_result ar ors all_eegs =
     (let ranked = rank_options ar ors;
          overall_eeg_med = np_median ar (map Fin all_eegs);
          overall_eeg_std = np_std ar (map Fin all_eegs)
      in case try_map (confidence ar overall_eeg_med overall_eeg_std) ranked of
           Inl e \<Rightarrow> Inl e
         | Inr confs \<Rightarrow> Inr \<lparr>option_ids = map idx ranked, confidences = confs\<rparr>)"

text \<open>
  Lines 178 to 192: the test that raises \<open>RuntimeError('not a good result')\<close>, and the
  return.  \<open>result.confidences[0]\<close> raises \<open>IndexError\<close> on an empty list.  Drawing the
  selected option changes no field of the trial.
\<close>

definition accept :: "numerics \<Rightarrow> RankResult \<Rightarrow> error + RankResult" where
  "accept ar result =
     (case confidences result of
        [] \<Rightarrow> Inl IndexError
      | best_option # others \<Rightarrow>
          (let avg_of_other_options = np_mean ar others;
               std_of_other_options = np_std ar others
           in if fl_lt (f_div ar (fl_abs (f_sub ar best_option avg_of_other_options))
                          std_of_other_options) (Fin 2)
              then Inl RuntimeError
              else Inr result))"

text \<open>
  \<open>Trial.process_results\<close>, given the samples of the block (from the signal collaborator
  or from \<open>BlockResult.random_blocks\<close>).  The result pairs what the call returns or raises
  with the trial as the call leaves it.
\<close>

definition process_results ::
  "numerics \<Rightarrow> Trial \<Rightarrow> BlockResult list \<Rightarrow> (error + RankResult) \<times> Trial" where
  "process_results ar t block =
     (let t1 = t\<lparr>results := Some block\<rparr>
      in case new_option_results (options t) (option_counts t) of
           Inl e \<Rightarrow> (Inl e, t1)
         | Inr ors0 \<Rightarrow>
             (case collect (index_list t) block ors0 [] of
                (Some e, ors, all_eegs) \<Rightarrow> (Inl e, t1\<lparr>option_results := Some ors\<rparr>)
              | (None, ors, all_eegs) \<Rightarrow>
                  (case rank_result ar ors all_eegs of
                     Inl e \<Rightarrow> (Inl e, t1\<lparr>option_results := Some ors\<rparr>)
                   | Inr result \<Rightarrow> (accept ar result, t1\<lparr>option_results := Some ors\<rparr>))))"

section \<open>Notions used to state the properties\<close>

text \<open>
  A trial is well formed when every entry of its presentation order is the position of one
  of its options.
\<close>

definition well_formed :: "Trial \<Rightarrow> bool" where
  "well_formed t = (\<forall>i \<in> set (index_list t). i < length (options t))"

text \<open>The two operations a caller applies to a trial between construction and scoring.\<close>

datatype call = Advance | Reset

fun do_call :: "call \<Rightarrow> Trial \<Rightarrow> Trial" where
  "do_call Advance t = snd (show_next_image t)"
| "do_call Reset t = snd (reset t)"

definition cursor_ok :: "Trial \<Rightarrow> bool" where
  "cursor_ok t = (0 \<le> index_ptr t \<and> index_ptr t \<le> int (length (index_list t))
      \<and> (mode t = RUNNING \<longrightarrow> index_ptr t < int (length (index_list t))))"

text \<open>
  The presentations still owed by a heap item \<open>(-count, key)\<close>, by a heap, and by the pair
  of loop variables of \<open>_nonadjacent\<close>.
\<close>

fun pending :: "int \<times> nat \<Rightarrow> nat multiset" where
  "pending (cnt, key) = replicate_mset (nat (- cnt)) key"

definition heap_pending :: "(int \<times> nat) list \<Rightarrow> nat multiset" where
  "heap_pending heap = (\<Sum>item \<in># mset heap. pending item)"

fun held_pending :: "(int \<times> nat) option \<Rightarrow> nat multiset" where
  "held_pending None = {#}"
| "held_pending (Some item) = pending item"

fun held_ok :: "(int \<times> nat) option \<Rightarrow> bool" where
  "held_ok None = True"
| "held_ok (Some (cnt, key)) = (cnt \<le> 0)"

text \<open>The presentations a list of counts asks for: option \<open>i\<close>, \<open>counts ! i\<close> times.\<close>

definition planned :: "int list \<Rightarrow> nat multiset" where
  "planned counts = heap_pending (map (\<lambda>(key, cnt). (- cnt, key)) (enumerate 0 counts))"

text \<open>
  In an order without avoidable repeats two neighbours are equal only in the trailing run,
  where everything that follows is the same option again.
\<close>

fun adjacent_only_in_tail :: "nat list \<Rightarrow> bool" where
  "adjacent_only_in_tail [] = True"
| "adjacent_only_in_tail [x] = True"
| "adjacent_only_in_tail (x # y # ys) =
     ((x = y \<longrightarrow> (\<forall>v \<in> set ys. v = x)) \<and> adjacent_only_in_tail (y # ys))"

text \<open>
  A trial of two options shown once each; it is what \<open>Trial.__init__\<close> builds from a
  generator whose draws are all zero.
\<close>

definition example_trial :: Trial where
  "example_trial = \<lparr>mode = INIT, preview_time = 1000, image_time = 250,
      options = [10, 20], min_repeat = 1, max_repeat = 3,
      index_list = [1, 0], option_counts = [1, 1], index_ptr = 0,
      selected_index_ptr = None, results = None, option_results = None\<rparr>"

text \<open>
  The invariant of the loop of \<open>_nonadjacent\<close> that keeps neighbours apart: the key held
  in the loop variables is not in the heap and is the key yielded last.
\<close>

fun held_apart :: "(int \<times> nat) list \<Rightarrow> (int \<times> nat) option \<Rightarrow> nat list \<Rightarrow> bool" where
  "held_apart heap None out = (out = [])"
| "held_apart heap (Some (cnt, key)) out = (key \<notin> snd ` set heap \<and> out \<noteq> [] \<and> last out = key)"

text \<open>
  The two largest signal values of an option, as the specification words the statistic,
  and the two smallest, each pair in ascending order.
\<close>

definition two_largest :: "real list \<Rightarrow> real list" where
  "two_largest xs = [Max (set (remove1 (Max (set xs)) xs)), Max (set xs)]"

definition two_smallest :: "real list \<Rightarrow> real list" where
  "two_smallest xs = [Min (set xs), Min (set (remove1 (Min (set xs)) xs))]"

text \<open>
  A ranking of option results by a statistic: a rearrangement in which the statistic never
  increases from one position to the next, and in which results with the same statistic
  keep the order they had.
\<close>

definition ranking_of ::
  "(OptionResult \<Rightarrow> fl) \<Rightarrow> OptionResult list \<Rightarrow> OptionResult list \<Rightarrow> bool" where
  "ranking_of stat ors ranked =
     (mset ranked = mset ors
      \<and> sorted_wrt (\<lambda>a b. \<not> fl_lt (stat a) (stat b)) ranked
      \<and> (\<forall>r \<in> set ors. filter (\<lambda>x. stat x = stat r) ranked = filter (\<lambda>x. stat x = stat r) ors))"

text \<open>No option has NaN for its statistic (an option without samples has).\<close>

definition comparable_keys :: "numerics \<Rightarrow> OptionResult list \<Rightarrow> bool" where
  "comparable_keys ar ors = (\<forall>r \<in> set ors. avg_best_two ar r \<noteq> NaN)"

text \<open>
  The scoring steps in the specification's words.  A sample belongs to the option that
  \<open>order[flash_index - 1]\<close> names; an option's result collects its samples in arrival
  order; its ``percentage correct'' is the number of its samples with \<open>|z| > 0.5\<close> over
  its expected count, and its confidence is \<open>z\<close> of its mean signal times that.
\<close>

definition resolved :: "nat list \<Rightarrow> BlockResult \<Rightarrow> error + nat" where
  "resolved order r = py_get order (image_id r - 1)"

definition samples_of :: "nat list \<Rightarrow> BlockResult list \<Rightarrow> nat \<Rightarrow> BlockResult list" where
  "samples_of order block i = filter (\<lambda>r. resolved order r = Inr i) block"

definition grouped :: "Trial \<Rightarrow> BlockResult list \<Rightarrow> OptionResult list" where
  "grouped t block =
     map (\<lambda>(i, opt). \<lparr>eegs = map eeg (samples_of (index_list t) block i),
                       sort_positions = map sort_position (samples_of (index_list t) block i),
                       idx = opt, expected_counts = option_counts t ! i\<rparr>)
       (enumerate 0 (options t))"

definition spec_z :: "numerics \<Rightarrow> real list \<Rightarrow> fl \<Rightarrow> fl" where
  "spec_z ar all_values v =
     f_div ar (f_sub ar (np_median ar (map Fin all_values)) v) (np_std ar (map Fin all_values))"

definition spec_percentage_correct :: "numerics \<Rightarrow> real list \<Rightarrow> OptionResult \<Rightarrow> fl" where
  "spec_percentage_correct ar all_values r =
     f_div ar
       (Fin (real (length (filter (\<lambda>v. fl_gt (fl_abs (spec_z ar all_values (Fin v))) (Fin (1 / 2)))
                             (eegs r)))))
       (Fin (real_of_int (expected_counts r)))"

definition spec_confidence :: "numerics \<Rightarrow> real list \<Rightarrow> OptionResult \<Rightarrow> fl" where
  "spec_confidence ar all_values r =
     f_mul ar (spec_z ar all_values (np_mean ar (map Fin (eegs r))))
       (spec_percentage_correct ar all_values r)"

text \<open>
  The \<open>RankResult\<close> that \<open>process_results\<close> has filled in when it reaches the test of
  line 191, if it gets that far.
\<close>

definition scored :: "numerics \<Rightarrow> Trial \<Rightarrow> BlockResult list \<Rightarrow> RankResult option" where
  "scored ar t block =
     (case new_option_results (options t) (option_counts t) of
        Inl e \<Rightarrow> None
      | Inr ors0 \<Rightarrow>
          (case collect (index_list t) block ors0 [] of
             (Some e, ors, all_eegs) \<Rightarrow> None
           | (None, ors, all_eegs) \<Rightarrow>
               (case rank_result ar ors all_eegs of Inl e \<Rightarrow> None | Inr result \<Rightarrow> Some result)))"

text \<open>
  The sign of a value: \<open>Some True\<close> positive, \<open>Some False\<close> negative, \<open>None\<close> zero or NaN.
  A division of doubles by \<open>+0.0\<close> (the zero of a standard deviation) returns the
  infinity of the numerator's sign, and NaN for a numerator that is zero or NaN.
\<close>

fun fl_sign :: "fl \<Rightarrow> bool option" where
  "fl_sign (Fin a) = (if a > 0 then Some True else if a < 0 then Some False else None)"
| "fl_sign PInf = Some True"
| "fl_sign NInf = Some False"
| "fl_sign NaN = None"

definition signed_inf :: "bool \<Rightarrow> fl" where
  "signed_inf positive = (if positive then PInf else NInf)"


text \<open>
  The values that are not NaN, placed in a linear order that agrees with \<open>fl_lt\<close>.
\<close>

fun fl_rank :: "fl \<Rightarrow> int \<times> real" where
  "fl_rank (Fin a) = (0, a)"
| "fl_rank PInf = (1, 0)"
| "fl_rank NInf = (- 1, 0)"
| "fl_rank NaN = (2, 0)"

subsection \<open>An arithmetic for the examples\<close>

text \<open>
  The operations below compute without rounding.  They are the arithmetic of the examples
  that follow: on the values met there (small integers and their halves) every operation
  on doubles is exact, and the libraries return what these definitions return.  They do
  not describe the libraries on other values, and no general statement uses them.
\<close>

fun exact_add :: "fl \<Rightarrow> fl \<Rightarrow> fl" where
  "exact_add (Fin a) (Fin b) = Fin (a + b)"
| "exact_add NaN y = NaN"
| "exact_add x NaN = NaN"
| "exact_add PInf NInf = NaN"
| "exact_add NInf PInf = NaN"
| "exact_add PInf y = PInf"
| "exact_add x PInf = PInf"
| "exact_add NInf y = NInf"
| "exact_add x NInf = NInf"

definition exact_sub :: "fl \<Rightarrow> fl \<Rightarrow> fl" where
  "exact_sub x y = exact_add x (fl_neg y)"

fun exact_mul :: "fl \<Rightarrow> fl \<Rightarrow> fl" where
  "exact_mul (Fin a) (Fin b) = Fin (a * b)"
| "exact_mul NaN y = NaN"
| "exact_mul x NaN = NaN"
| "exact_mul x y =
     (case (fl_sign x, fl_sign y) of
        (Some p, Some q) \<Rightarrow> signed_inf (p = q)
      | _ \<Rightarrow> NaN)"

fun exact_div :: "fl \<Rightarrow> fl \<Rightarrow> fl" where
  "exact_div (Fin a) (Fin b) =
     (if b \<noteq> 0 then Fin (a / b)
      else if a > 0 then PInf else if a < 0 then NInf else NaN)"
| "exact_div NaN y = NaN"
| "exact_div x NaN = NaN"
| "exact_div (Fin a) y = Fin 0"
| "exact_div x (Fin b) =
     (case fl_sign x of
        Some p \<Rightarrow> signed_inf (p = (b \<ge> 0))
      | None \<Rightarrow> NaN)"
| "exact_div x y = NaN"

fun exact_sqrt :: "fl \<Rightarrow> fl" where
  "exact_sqrt (Fin a) = (if a \<ge> 0 then Fin (sqrt a) else NaN)"
| "exact_sqrt PInf = PInf"
| "exact_sqrt NInf = NaN"
| "exact_sqrt NaN = NaN"

definition exact_sum :: "fl list \<Rightarrow> fl" where
  "exact_sum xs = foldl exact_add (Fin 0) xs"

definition exact_mean :: "fl list \<Rightarrow> fl" where
  "exact_mean xs = exact_div (exact_sum xs) (Fin (real (length xs)))"

definition exact_std :: "fl list \<Rightarrow> fl" where
  "exact_std xs =
     (let m = exact_mean xs; d = map (\<lambda>x. exact_sub x m) xs
      in exact_sqrt (exact_mean (map (\<lambda>x. exact_mul x x) d)))"

fun finite_values :: "fl list \<Rightarrow> real list option" where
  "finite_values [] = Some []"
| "finite_values (Fin a # xs) = map_option ((#) a) (finite_values xs)"
| "finite_values (x # xs) = None"

definition exact_median :: "fl list \<Rightarrow> fl" where
  "exact_median xs =
     (case finite_values xs of
        None \<Rightarrow> NaN
      | Some rs \<Rightarrow>
          (let s = sort rs; n = length rs
           in if n = 0 then NaN
              else if odd n then Fin (s ! (n div 2))
              else Fin ((s ! (n div 2 - 1) + s ! (n div 2)) / 2)))"

definition exact :: numerics where
  "exact = \<lparr>f_sub = exact_sub, f_mul = exact_mul, f_div = exact_div,
            np_mean = exact_mean, np_std = exact_std, np_median = exact_median\<rparr>"

text \<open>
  Completed trials and one block of four samples for them: with two options shown twice
  each, and with three options of which the first is shown twice.
\<close>

definition sample_block :: "BlockResult list" where
  "sample_block =
     [\<lparr>image_id = 1, eeg = 0, sort_position = 0\<rparr>, \<lparr>image_id = 2, eeg = 2, sort_position = 0\<rparr>,
      \<lparr>image_id = 3, eeg = 0, sort_position = 0\<rparr>, \<lparr>image_id = 4, eeg = 2, sort_position = 0\<rparr>]"

definition two_option_trial :: Trial where
  "two_option_trial = \<lparr>mode = COMPLETED, preview_time = 1000, image_time = 250,
      options = [10, 20], min_repeat = 2, max_repeat = 3,
      index_list = [0, 1, 0, 1], option_counts = [2, 2], index_ptr = 4,
      selected_index_ptr = None, results = None, option_results = None\<rparr>"


definition low_option :: OptionResult where
  "low_option = \<lparr>eegs = [0, 0], sort_positions = [0, 0], idx = 10, expected_counts = 2\<rparr>"

definition high_option :: OptionResult where
  "high_option = \<lparr>eegs = [2, 2], sort_positions = [0, 0], idx = 20, expected_counts = 2\<rparr>"

definition single_option :: "int \<Rightarrow> OptionResult" where
  "single_option opt = \<lparr>eegs = [2], sort_positions = [0], idx = opt, expected_counts = 1\<rparr>"

section \<open>Lemmas about the state machine\<close>

lemma advance_n_Suc:
  "show_next_image t = (Inr r, t') \<Longrightarrow> advance_n (Suc n) t = (Inr r, t') # advance_n n t'"
  by simp

lemma flash_step:
  assumes "mode t = RUNNING" "index_ptr t = int k" "Suc k < length (index_list t)" "well_formed t"
  shows "show_next_image t = (Inr (image_time t, FlashFrame (index_list t ! Suc k)), t\<lparr>index_ptr := int (Suc k)\<rparr>)"
proof -
  have "nat (int k + 1) = Suc k" by simp
  moreover have "index_list t ! Suc k < length (options t)"
    using assms by (simp add: well_formed_def)
  ultimately show ?thesis
    using assms(1-3) by (simp add: show_next_image_def py_get_def Let_def)
qed

lemma last_step:
  assumes "mode t = RUNNING" "index_ptr t = int k" "Suc k = length (index_list t)"
  shows "show_next_image t = (Inr (0, NoFrame), t\<lparr>index_ptr := int (Suc k), mode := COMPLETED\<rparr>)"
  using assms by (auto simp: show_next_image_def py_get_def Let_def)

lemma running_steps:
  assumes "mode t = RUNNING" "index_ptr t = int k" "well_formed t"
    "length (index_list t) = k + Suc d"
  shows "advance_n (Suc d) t =
     map (\<lambda>j. (Inr (image_time t, FlashFrame (index_list t ! j)), t\<lparr>index_ptr := int j\<rparr>))
       [Suc k ..< length (index_list t)]
     @ [(Inr (0, NoFrame), t\<lparr>index_ptr := int (length (index_list t)), mode := COMPLETED\<rparr>)]"
  using assms
proof (induction d arbitrary: t k)
  case 0
  then have "Suc k = length (index_list t)" by simp
  with 0 last_step[of t k] show ?case by simp
next
  case (Suc d)
  from Suc.prems have lt: "Suc k < length (index_list t)" by simp
  let ?t' = "t\<lparr>index_ptr := int (Suc k)\<rparr>"
  have st: "show_next_image t = (Inr (image_time t, FlashFrame (index_list t ! Suc k)), ?t')"
    using flash_step[OF Suc.prems(1,2) lt Suc.prems(3)] .
  have ih: "advance_n (Suc d) ?t' =
     map (\<lambda>j. (Inr (image_time ?t', FlashFrame (index_list ?t' ! j)), ?t'\<lparr>index_ptr := int j\<rparr>))
       [Suc (Suc k) ..< length (index_list ?t')]
     @ [(Inr (0, NoFrame), ?t'\<lparr>index_ptr := int (length (index_list ?t')), mode := COMPLETED\<rparr>)]"
    using Suc.prems by (intro Suc.IH) (auto simp: well_formed_def)
  have up: "[Suc k ..< length (index_list t)] = Suc k # [Suc (Suc k) ..< length (index_list t)]"
    using lt by (simp add: upt_conv_Cons)
  have "advance_n (Suc (Suc d)) t = (Inr (image_time t, FlashFrame (index_list t ! Suc k)), ?t') # advance_n (Suc d) ?t'"
    using st by (rule advance_n_Suc)
  then show ?case using ih up by simp
qed

lemma first_flash:
  assumes "mode t = PREVIEW" "index_list t \<noteq> []" "well_formed t"
  shows "show_next_image t = (Inr (image_time t, FlashFrame (index_list t ! 0)), t\<lparr>mode := RUNNING, index_ptr := 0\<rparr>)"
proof -
  have "index_list t ! 0 < length (options t)"
    using assms by (simp add: well_formed_def)
  then show ?thesis
    using assms(1,2) by (simp add: show_next_image_def py_get_def Let_def)
qed

lemma preview_step:
  assumes "mode t = INIT" "options t \<noteq> []"
  shows "show_next_image t = (Inr (preview_time t, PreviewFrame), t\<lparr>mode := PREVIEW\<rparr>)"
  using assms by (simp add: show_next_image_def Let_def)

lemma empty_order_step:
  assumes "mode t = PREVIEW" "index_list t = []"
  shows "show_next_image t = (Inr (0, NoFrame), t\<lparr>mode := COMPLETED, index_ptr := 0\<rparr>)"
  using assms by (simp add: show_next_image_def Let_def)

lemma full_cycle:
  assumes "mode t = INIT" "options t \<noteq> []" "well_formed t"
  shows "advance_n (2 + length (index_list t)) t =
     (Inr (preview_time t, PreviewFrame), t\<lparr>mode := PREVIEW\<rparr>)
     # map (\<lambda>j. (Inr (image_time t, FlashFrame (index_list t ! j)),
                  t\<lparr>mode := RUNNING, index_ptr := int j\<rparr>)) [0 ..< length (index_list t)]
     @ [(Inr (0, NoFrame), t\<lparr>mode := COMPLETED, index_ptr := int (length (index_list t))\<rparr>)]"
proof (cases "index_list t = []")
  case True
  let ?p = "t\<lparr>mode := PREVIEW\<rparr>"
  have "show_next_image ?p = (Inr (0, NoFrame), ?p\<lparr>mode := COMPLETED, index_ptr := 0\<rparr>)"
    using True by (intro empty_order_step) simp_all
  with True preview_step[OF assms(1,2)] show ?thesis
    by (simp add: numeral_2_eq_2)
next
  case False
  let ?p = "t\<lparr>mode := PREVIEW\<rparr>"
  let ?r = "t\<lparr>mode := RUNNING, index_ptr := 0\<rparr>"
  obtain d where d: "length (index_list t) = Suc d"
    using False by (cases "index_list t") auto
  have s2: "show_next_image ?p = (Inr (image_time t, FlashFrame (index_list t ! 0)), ?r)"
    using first_flash[of ?p] False assms(3) by (simp add: well_formed_def)
  have run: "advance_n (Suc d) ?r =
     map (\<lambda>j. (Inr (image_time ?r, FlashFrame (index_list ?r ! j)), ?r\<lparr>index_ptr := int j\<rparr>))
       [Suc 0 ..< length (index_list ?r)]
     @ [(Inr (0, NoFrame), ?r\<lparr>index_ptr := int (length (index_list ?r)), mode := COMPLETED\<rparr>)]"
    using d assms(3) by (intro running_steps) (auto simp: well_formed_def)
  have up: "[0 ..< length (index_list t)] = 0 # [Suc 0 ..< length (index_list t)]"
    using d by (simp add: upt_conv_Cons)
  have "advance_n (2 + length (index_list t)) t =
      (Inr (preview_time t, PreviewFrame), ?p) # (Inr (image_time t, FlashFrame (index_list t ! 0)), ?r)
        # advance_n (Suc d) ?r"
    using advance_n_Suc[OF preview_step[OF assms(1,2)]] advance_n_Suc[OF s2] d
    by (simp add: numeral_2_eq_2 del: advance_n.simps(2))
  then show ?thesis using run up by simp
qed

section \<open>Lemmas about the presentation order\<close>

lemma heap_pending_Nil [simp]: "heap_pending [] = {#}"
  by (simp add: heap_pending_def)

lemma heap_pending_Cons [simp]: "heap_pending (x # xs) = pending x + heap_pending xs"
  by (simp add: heap_pending_def)

lemma heap_pending_remove1:
  "m \<in> set heap \<Longrightarrow> heap_pending heap = pending m + heap_pending (remove1 m heap)"
  by (induction heap) auto

lemma pending_step: "cnt < 0 \<Longrightarrow> pending (cnt, key) = add_mset key (pending (cnt + 1, key))"
proof -
  assume "cnt < 0"
  then have "nat (- cnt) = Suc (nat (- (cnt + 1)))" by simp
  then show ?thesis by simp
qed

lemma Min_in_heap: "heap \<noteq> [] \<Longrightarrow> Min (set heap) \<in> set heap"
  by (rule Min_in) simp_all

lemma nonadjacent_loop_total:
  assumes "\<forall>item \<in> set heap. fst item < 0" "held_ok held"
  shows "\<exists>held' out'. nonadjacent_loop heap held out = Some (held', out') \<and> held_ok held'
           \<and> mset out' + held_pending held' = mset out + heap_pending heap + held_pending held"
  using assms
proof (induction "size (heap_pending heap) + size (held_pending held)" arbitrary: heap held out
       rule: less_induct)
  case less
  show ?case
  proof (cases "heap = []")
    case True
    then show ?thesis using less.prems by (simp add: nonadjacent_loop.simps)
  next
    case False
    obtain cnt key where m: "Min (set heap) = (cnt, key)" by (cases "Min (set heap)")
    have m_in: "(cnt, key) \<in> set heap" using Min_in_heap[OF False] m by simp
    then have neg: "cnt < 0" using less.prems(1) by force
    let ?rest = "remove1 (cnt, key) heap"
    have hp: "heap_pending heap = pending (cnt, key) + heap_pending ?rest"
      using heap_pending_remove1[OF m_in] .
    have rest_neg: "\<forall>item \<in> set ?rest. fst item < 0"
      using less.prems(1) by (meson notin_set_remove1)
    define heap' where "heap' = (case held of None \<Rightarrow> ?rest
        | Some (c, k) \<Rightarrow> if c \<noteq> 0 then (c, k) # ?rest else ?rest)"
    have unfold: "nonadjacent_loop heap held out =
        nonadjacent_loop heap' (Some (cnt + 1, key)) (out @ [key])"
      using False m
      by (subst nonadjacent_loop.simps)
         (auto simp: heap'_def heappop_def heapreplace_def Let_def split: option.splits)
    have heap'_neg: "\<forall>item \<in> set heap'. fst item < 0"
      using rest_neg less.prems(2) by (auto simp: heap'_def split: option.splits)
    have heap'_pending: "heap_pending heap' + pending (cnt, key) = heap_pending heap + held_pending held"
      using hp by (auto simp: heap'_def split: option.splits)
    have held'_ok: "held_ok (Some (cnt + 1, key))" using neg by simp
    have dec: "size (heap_pending heap') + size (held_pending (Some (cnt + 1, key)))
         < size (heap_pending heap) + size (held_pending held)"
    proof -
      have "size (heap_pending heap') + size (pending (cnt, key))
          = size (heap_pending heap) + size (held_pending held)"
        using heap'_pending by (metis size_union)
      moreover have "size (pending (cnt, key)) = Suc (size (pending (cnt + 1, key)))"
        using pending_step[OF neg] by simp
      ultimately show ?thesis by simp
    qed
    from less.hyps[OF dec heap'_neg held'_ok, of "out @ [key]"]
    obtain held' out' where r: "nonadjacent_loop heap' (Some (cnt + 1, key)) (out @ [key]) = Some (held', out')"
      "held_ok held'"
      "mset out' + held_pending held' = mset (out @ [key]) + heap_pending heap' + held_pending (Some (cnt + 1, key))"
      by blast
    have "mset out' + held_pending held' = mset out + heap_pending heap + held_pending held"
    proof -
      have "mset out' + held_pending held' = mset out + (heap_pending heap' + pending (cnt, key))"
        using r(3) pending_step[OF neg] by simp
      then show ?thesis using heap'_pending by (simp add: add.assoc)
    qed
    with r(1,2) unfold show ?thesis by simp
  qed
qed

lemma nonadjacent_total:
  assumes "\<forall>c \<in> set counts. 1 \<le> c"
  shows "\<exists>order. nonadjacent counts = Some order \<and> mset order = planned counts"
proof -
  let ?heap = "map (\<lambda>(key, cnt). (- cnt, key)) (enumerate 0 counts)"
  have neg: "\<forall>item \<in> set ?heap. fst item < 0"
    using assms by (auto simp: enumerate_eq_zip dest!: set_zip_rightD)
  from nonadjacent_loop_total[OF neg, of None "[]"]
  obtain held' out' where r: "nonadjacent_loop ?heap None [] = Some (held', out')"
    "mset out' + held_pending held' = heap_pending ?heap"
    by auto
  show ?thesis
  proof (cases held')
    case None
    with r show ?thesis by (simp add: nonadjacent_def planned_def)
  next
    case (Some item)
    obtain cnt key where "item = (cnt, key)" by (cases item)
    with Some r show ?thesis by (simp add: nonadjacent_def planned_def)
  qed
qed

lemma count_heap_pending_enumerate:
  "count (heap_pending (map (\<lambda>(key, cnt). (- cnt, key)) (enumerate n counts))) i =
     (if n \<le> i \<and> i < n + length counts then nat (counts ! (i - n)) else 0)"
proof (induction counts arbitrary: n)
  case Nil
  then show ?case by simp
next
  case (Cons c counts)
  show ?case
  proof (cases "i = n")
    case True
    then show ?thesis using Cons.IH[of "Suc n"] by simp
  next
    case False
    then show ?thesis using Cons.IH[of "Suc n"] by (auto simp: nth_Cons')
  qed
qed

lemma count_planned:
  "count (planned counts) i = (if i < length counts then nat (counts ! i) else 0)"
  using count_heap_pending_enumerate[of 0 counts i] by (simp add: planned_def)



lemma shuffle_from_mset:
  "k < length xs \<or> k = 0 \<Longrightarrow> mset (fst (shuffle_from src pos k xs)) = mset xs"
proof (induction k arbitrary: xs pos)
  case 0
  then show ?case by simp
next
  case (Suc k)
  then have lt: "Suc k < length xs" by simp
  let ?j = "src pos mod (Suc k + 1)"
  have j: "?j < length xs" using lt
    by (metis Suc_eq_plus1 less_Suc_eq_le less_le_trans mod_less_divisor not_less zero_less_Suc le_less_trans)
  let ?xs' = "xs[Suc k := xs ! ?j, ?j := xs ! Suc k]"
  have "mset ?xs' = mset xs" using lt j by (simp add: mset_swap)
  moreover have "mset (fst (shuffle_from src (Suc pos) k ?xs')) = mset ?xs'"
    using lt by (intro Suc.IH) simp
  ultimately show ?case by (simp add: Let_def)
qed

lemma shuffle_mset: "mset (fst (shuffle src pos xs)) = mset xs"
  unfolding shuffle_def by (rule shuffle_from_mset) (cases xs; simp)

lemma randrange_bounds:
  "randrange src pos lo hi = Inr (c, pos') \<Longrightarrow> lo \<le> c \<and> c < hi"
proof -
  assume a: "randrange src pos lo hi = Inr (c, pos')"
  then have lt: "lo < hi" by (auto simp: randrange_def split: if_splits)
  then have "src pos mod nat (hi - lo) < nat (hi - lo)" by simp
  then have "int (src pos mod nat (hi - lo)) < hi - lo" using lt by linarith
  with a lt show ?thesis by (auto simp: randrange_def)
qed

lemma draw_counts_result:
  "draw_counts src pos lo hi opts = Inr (counts, pos') \<Longrightarrow>
     length counts = length opts \<and> (\<forall>c \<in> set counts. lo \<le> c \<and> c < hi)"
proof (induction opts arbitrary: pos counts pos')
  case Nil
  then show ?case by simp
next
  case (Cons opt opts)
  from Cons.prems obtain c p1 cs where
    r: "randrange src pos lo hi = Inr (c, p1)" and
    d: "draw_counts src p1 lo hi opts = Inr (cs, pos')" and
    cs: "counts = c # cs"
    by (auto split: sum.splits prod.splits)
  from Cons.IH[OF d] randrange_bounds[OF r] cs show ?case by auto
qed

lemma construct_trial_result:
  assumes "construct_trial src pos lo hi opts = Some (Inr (order, counts, pos'))" "1 \<le> lo"
  shows "length counts = length opts \<and> (\<forall>c \<in> set counts. lo \<le> c \<and> c < hi)
         \<and> mset order = planned counts"
proof -
  from assms(1) obtain p1 order0 where
    d: "draw_counts src pos lo hi opts = Inr (counts, p1)" and
    n: "nonadjacent counts = Some order0" and
    s: "order = fst (shuffle src p1 order0)"
    by (auto simp: construct_trial_def split: sum.splits option.splits prod.splits)
  have c: "length counts = length opts \<and> (\<forall>c \<in> set counts. lo \<le> c \<and> c < hi)"
    using draw_counts_result[OF d] .
  then have "\<forall>c \<in> set counts. 1 \<le> c" using assms(2) by auto
  from nonadjacent_total[OF this] n have "mset order0 = planned counts" by auto
  with s c show ?thesis by (simp add: shuffle_mset)
qed

lemma planned_members: "i \<in># planned counts \<Longrightarrow> i < length counts"
proof -
  assume "i \<in># planned counts"
  then have "count (planned counts) i \<noteq> 0" by simp
  then show ?thesis by (auto simp: count_planned split: if_splits)
qed

lemma Trial_init_result:
  assumes "Trial_init src pos opts ptime itime minr maxr = Some (Inr t)"
  shows "mode t = INIT \<and> index_ptr t = 0 \<and> options t = opts \<and> preview_time t = ptime
         \<and> image_time t = itime \<and> length (option_counts t) = length opts
         \<and> (\<forall>c \<in> set (option_counts t). 1 \<le> c)
         \<and> mset (index_list t) = planned (option_counts t)"
proof -
  let ?lo = "max 1 minr" and ?hi = "max (max 1 minr) maxr"
  from assms obtain order counts pos' where
    c: "construct_trial src pos ?lo ?hi opts = Some (Inr (order, counts, pos'))" and
    t: "t = \<lparr>mode = INIT, preview_time = ptime, image_time = itime,
              options = opts, min_repeat = ?lo, max_repeat = ?hi,
              index_list = order, option_counts = counts, index_ptr = 0,
              selected_index_ptr = None, results = None, option_results = None\<rparr>"
    by (auto simp: Trial_init_def Let_def split: option.splits sum.splits)
  have "length counts = length opts \<and> (\<forall>c \<in> set counts. ?lo \<le> c \<and> c < ?hi)
         \<and> mset order = planned counts"
    using construct_trial_result[OF c] by simp
  then show ?thesis using t by auto
qed

lemma Trial_init_well_formed:
  assumes "Trial_init src pos opts ptime itime minr maxr = Some (Inr t)"
  shows "well_formed t"
proof -
  note r = Trial_init_result[OF assms]
  have "i < length (options t)" if "i \<in> set (index_list t)" for i
  proof -
    from that have "i \<in># mset (index_list t)" by simp
    then have "i \<in># planned (option_counts t)" using r by simp
    from planned_members[OF this] r show ?thesis by simp
  qed
  then show ?thesis by (simp add: well_formed_def)
qed

lemma show_next_image_cursor_ok: "cursor_ok t \<Longrightarrow> cursor_ok (snd (show_next_image t))"
  by (auto simp: cursor_ok_def show_next_image_def Let_def py_get_def split: sum.splits)

lemma reset_cursor_ok: "cursor_ok (snd (reset t))"
  by (simp add: cursor_ok_def reset_def)

lemma do_call_cursor_ok: "cursor_ok t \<Longrightarrow> cursor_ok (do_call c t)"
  by (cases c) (simp_all add: show_next_image_cursor_ok reset_cursor_ok)

lemma fold_do_call_cursor_ok: "cursor_ok t \<Longrightarrow> cursor_ok (fold do_call cs t)"
  by (induction cs arbitrary: t) (simp_all add: do_call_cursor_ok)




lemma nonadjacent_example: "nonadjacent [1, 1] = Some [0, 1]"
  by (simp add: nonadjacent_def nonadjacent_loop.simps heappop_def heapreplace_def)

lemma Trial_init_example:
  "Trial_init (\<lambda>i. 0) 0 [10, 20] 1000 250 1 3 = Some (Inr example_trial)"
  by (simp add: Trial_init_def construct_trial_def randrange_def nonadjacent_example
      shuffle_def example_trial_def)

lemma nonadjacent_two_twice: "nonadjacent [2, 2] = Some [0, 1, 0, 1]"
  by (simp add: nonadjacent_def nonadjacent_loop.simps heappop_def heapreplace_def)

lemma draw_counts_two_twice: "draw_counts src 0 2 3 [10, 20 :: int] = Inr ([2, 2], 2)"
  by (simp add: randrange_def)

lemma shuffle_two_twice:
  "shuffle (\<lambda>i. if i = 2 then 3 else 1) 2 [0, 1, 0, 1 :: nat] = ([0, 0, 1, 1], 5)"
  by code_simp

text \<open>
  The constructor always returns or raises: it builds a trial when the range of counts is
  not empty, and raises \<open>ValueError\<close> when it is empty and there is an option to draw for.
\<close>

lemma draw_counts_succeeds:
  "lo < hi \<Longrightarrow> \<exists>counts pos'. draw_counts src pos lo hi opts = Inr (counts, pos')"
proof (induction opts arbitrary: pos)
  case Nil
  then show ?case by simp
next
  case (Cons opt opts)
  from Cons.IH[OF Cons.prems, of "Suc pos"] obtain cs p where
    "draw_counts src (Suc pos) lo hi opts = Inr (cs, p)" by blast
  with Cons.prems show ?case by (simp add: randrange_def)
qed

lemma Trial_init_succeeds:
  assumes "max 1 minr < maxr"
  shows "\<exists>t. Trial_init src pos opts ptime itime minr maxr = Some (Inr t)"
proof -
  let ?lo = "max 1 minr" and ?hi = "max (max 1 minr) maxr"
  have lt: "?lo < ?hi" using assms by simp
  from draw_counts_succeeds[OF lt] obtain counts p1 where
    d: "draw_counts src pos ?lo ?hi opts = Inr (counts, p1)" by blast
  from draw_counts_result[OF d] have "\<forall>c \<in> set counts. 1 \<le> c" by auto
  from nonadjacent_total[OF this] obtain order where n: "nonadjacent counts = Some order"
    by blast
  obtain order' p2 where s: "shuffle src p1 order = (order', p2)" by (cases "shuffle src p1 order")
  have "construct_trial src pos ?lo ?hi opts = Some (Inr (order', counts, p2))"
    using d n s by (simp add: construct_trial_def)
  then show ?thesis by (simp add: Trial_init_def Let_def)
qed

lemma Trial_init_raises:
  assumes "maxr \<le> max 1 minr" "opts \<noteq> []"
  shows "Trial_init src pos opts ptime itime minr maxr = Some (Inl ValueError)"
proof -
  obtain opt rest where o: "opts = opt # rest" using assms(2) by (cases opts) auto
  have "max (max 1 minr) maxr = max 1 minr" using assms(1) by simp
  then show ?thesis
    by (simp add: Trial_init_def Let_def construct_trial_def o randrange_def)
qed

text \<open>The greedy order itself has no avoidable repeats.\<close>

lemma adjacent_only_in_tail_replicate: "adjacent_only_in_tail (replicate n k)"
proof (induction n)
  case 0
  then show ?case by simp
next
  case (Suc n)
  then show ?case by (cases n) auto
qed

lemma adjacent_only_in_tail_append:
  assumes "distinct_adj xs" "xs = [] \<or> last xs = k"
  shows "adjacent_only_in_tail (xs @ replicate n k)"
  using assms
proof (induction xs rule: induct_list012)
  case 1
  then show ?case by (simp add: adjacent_only_in_tail_replicate)
next
  case (2 x)
  then have "[x] @ replicate n k = replicate (Suc n) k" by simp
  then show ?case by (metis adjacent_only_in_tail_replicate)
next
  case (3 x y zs)
  then have "x \<noteq> y" "distinct_adj (y # zs)" "last (y # zs) = k" by auto
  with 3 show ?case by simp
qed

lemma nonadjacent_loop_apart:
  assumes "\<forall>item \<in> set heap. fst item < 0" "held_ok held" "distinct (map snd heap)"
    "held_apart heap held out" "distinct_adj out"
  shows "\<exists>held' out'. nonadjacent_loop heap held out = Some (held', out')
           \<and> held_apart [] held' out' \<and> distinct_adj out'"
  using assms
proof (induction "size (heap_pending heap) + size (held_pending held)" arbitrary: heap held out
       rule: less_induct)
  case less
  show ?case
  proof (cases "heap = []")
    case True
    then show ?thesis using less.prems by (cases held) (auto simp: nonadjacent_loop.simps)
  next
    case False
    obtain cnt key where m: "Min (set heap) = (cnt, key)" by (cases "Min (set heap)")
    have m_in: "(cnt, key) \<in> set heap" using Min_in_heap[OF False] m by simp
    then have neg: "cnt < 0" using less.prems(1) by force
    let ?rest = "remove1 (cnt, key) heap"
    have hp: "heap_pending heap = pending (cnt, key) + heap_pending ?rest"
      using heap_pending_remove1[OF m_in] .
    have rest_neg: "\<forall>item \<in> set ?rest. fst item < 0"
      using less.prems(1) by (meson notin_set_remove1)
    define heap' where "heap' = (case held of None \<Rightarrow> ?rest
        | Some (c, k) \<Rightarrow> if c \<noteq> 0 then (c, k) # ?rest else ?rest)"
    have unfold: "nonadjacent_loop heap held out =
        nonadjacent_loop heap' (Some (cnt + 1, key)) (out @ [key])"
      using False m
      by (subst nonadjacent_loop.simps)
         (auto simp: heap'_def heappop_def heapreplace_def Let_def split: option.splits)
    have heap'_neg: "\<forall>item \<in> set heap'. fst item < 0"
      using rest_neg less.prems(2) by (auto simp: heap'_def split: option.splits)
    have heap'_pending: "heap_pending heap' + pending (cnt, key) = heap_pending heap + held_pending held"
      using hp by (auto simp: heap'_def split: option.splits)
    have held'_ok: "held_ok (Some (cnt + 1, key))" using neg by simp
    have dec: "size (heap_pending heap') + size (held_pending (Some (cnt + 1, key)))
         < size (heap_pending heap) + size (held_pending held)"
    proof -
      have "size (heap_pending heap') + size (pending (cnt, key))
          = size (heap_pending heap) + size (held_pending held)"
        using heap'_pending by (metis size_union)
      moreover have "size (pending (cnt, key)) = Suc (size (pending (cnt + 1, key)))"
        using pending_step[OF neg] by simp
      ultimately show ?thesis by simp
    qed
    have key_in: "key \<in> snd ` set heap" using m_in by force
    have rest_keys: "distinct (map snd ?rest)" "key \<notin> snd ` set ?rest"
    proof -
      obtain xs ys where sp: "heap = xs @ (cnt, key) # ys" "(cnt, key) \<notin> set xs"
        using m_in by (meson split_list_first)
      then have r: "?rest = xs @ ys" by (simp add: remove1_append)
      from less.prems(3) sp(1) show "distinct (map snd ?rest)" unfolding r by auto
      from less.prems(3) sp(1) show "key \<notin> snd ` set ?rest" unfolding r by force
    qed
    have rest_sub: "set ?rest \<subseteq> set heap" by (rule set_remove1_subset)
    have heap'_keys: "distinct (map snd heap')"
    proof (cases held)
      case None
      then show ?thesis using rest_keys(1) by (simp add: heap'_def)
    next
      case (Some item)
      obtain c k where i: "item = (c, k)" by (cases item)
      with Some less.prems(4) have "k \<notin> snd ` set heap" by simp
      with rest_sub have "k \<notin> snd ` set ?rest" by blast
      with Some i rest_keys(1) show ?thesis by (simp add: heap'_def)
    qed
    have last_ne: "out = [] \<or> last out \<noteq> key"
    proof (cases held)
      case None
      then show ?thesis using less.prems(4) by simp
    next
      case (Some item)
      obtain c k where i: "item = (c, k)" by (cases item)
      with Some less.prems(4) have "k \<notin> snd ` set heap" "last out = k" by simp_all
      with key_in show ?thesis by auto
    qed
    have key_heap': "key \<notin> snd ` set heap'"
    proof (cases held)
      case None
      then show ?thesis using rest_keys(2) by (simp add: heap'_def)
    next
      case (Some item)
      obtain c k where i: "item = (c, k)" by (cases item)
      with Some less.prems(4) have "k \<notin> snd ` set heap" by simp
      with key_in have "k \<noteq> key" by auto
      with Some i rest_keys(2) show ?thesis by (simp add: heap'_def)
    qed
    have apart': "held_apart heap' (Some (cnt + 1, key)) (out @ [key])"
      using key_heap' by simp
    have adj': "distinct_adj (out @ [key])"
      using less.prems(5) last_ne by (auto simp: distinct_adj_append_iff)
    from less.hyps[OF dec heap'_neg held'_ok heap'_keys apart' adj'] unfold
    show ?thesis by simp
  qed
qed

lemma distinct_enumerate_keys:
  "distinct (map snd (map (\<lambda>(key, cnt). (- cnt, key)) (enumerate n (counts :: int list))))"
proof -
  have "map snd (map (\<lambda>(key, cnt). (- cnt, key)) (enumerate n counts)) = map fst (enumerate n counts)"
    by (simp add: comp_def case_prod_unfold)
  then show ?thesis by simp
qed

lemma nonadjacent_adjacent_only_in_tail:
  assumes "\<forall>c \<in> set counts. 1 \<le> c"
  shows "\<exists>order. nonadjacent counts = Some order \<and> adjacent_only_in_tail order"
proof -
  let ?heap = "map (\<lambda>(key, cnt). (- cnt, key)) (enumerate 0 counts)"
  have neg: "\<forall>item \<in> set ?heap. fst item < 0"
    using assms by (auto simp: enumerate_eq_zip dest!: set_zip_rightD)
  from nonadjacent_loop_apart[OF neg _ distinct_enumerate_keys, of None "[]"]
  obtain held' out' where r: "nonadjacent_loop ?heap None [] = Some (held', out')"
    "held_apart [] held' out'" "distinct_adj out'"
    by auto
  show ?thesis
  proof (cases held')
    case None
    with r have "out' = []" by simp
    with None r show ?thesis by (simp add: nonadjacent_def)
  next
    case (Some item)
    obtain cnt key where i: "item = (cnt, key)" by (cases item)
    with Some r have "last out' = key" by simp
    with r(3) have "adjacent_only_in_tail (out' @ replicate (nat (- cnt)) key)"
      by (intro adjacent_only_in_tail_append) simp_all
    with Some i r show ?thesis by (simp add: nonadjacent_def)
  qed
qed

section \<open>Lemmas about scoring\<close>

text \<open>On keys without NaN the ranking is the stable sort.\<close>

lemma mset_py_insort_key: "mset (py_insort_key f x ys) = add_mset x (mset ys)"
  by (induction ys) auto

lemma mset_py_sorted: "mset (py_sorted f xs) = mset xs"
  by (induction xs) (simp_all add: py_sorted_def mset_py_insort_key)

lemma set_py_sorted: "set (py_sorted f xs) = set xs"
  using mset_py_sorted[of f xs] by (metis set_mset_mset)

lemma fl_lt_rank: "a \<noteq> NaN \<Longrightarrow> b \<noteq> NaN \<Longrightarrow> fl_lt a b \<longleftrightarrow> fl_rank a < fl_rank b"
  by (cases a; cases b) simp_all

lemma fl_rank_eq: "a \<noteq> NaN \<Longrightarrow> b \<noteq> NaN \<Longrightarrow> fl_rank a = fl_rank b \<longleftrightarrow> a = b"
  by (cases a; cases b) simp_all

lemma fl_neg_NaN: "fl_neg a = NaN \<longleftrightarrow> a = NaN"
  by (cases a) simp_all

lemma fl_neg_eq: "fl_neg a = fl_neg b \<longleftrightarrow> a = b"
  by (cases a; cases b) simp_all

lemma fl_lt_neg: "fl_lt (fl_neg a) (fl_neg b) \<longleftrightarrow> fl_lt b a"
  by (cases a; cases b) simp_all

lemma py_insort_key_rank:
  assumes "f x \<noteq> NaN" "\<forall>y \<in> set ys. f y \<noteq> NaN"
  shows "py_insort_key f x ys = insort_key (\<lambda>v. fl_rank (f v)) x ys"
  using assms by (induction ys) (auto simp: fl_lt_rank)

lemma py_sorted_rank:
  assumes "\<forall>x \<in> set xs. f x \<noteq> NaN"
  shows "py_sorted f xs = sort_key (\<lambda>v. fl_rank (f v)) xs"
  using assms
proof (induction xs)
  case Nil
  then show ?case by (simp add: py_sorted_def)
next
  case (Cons x xs)
  then have ih: "py_sorted f xs = sort_key (\<lambda>v. fl_rank (f v)) xs" by simp
  have "py_sorted f (x # xs) = py_insort_key f x (py_sorted f xs)"
    by (simp add: py_sorted_def)
  also have "\<dots> = insort_key (\<lambda>v. fl_rank (f v)) x (py_sorted f xs)"
    using Cons.prems by (intro py_insort_key_rank) (simp_all add: set_py_sorted)
  finally show ?case using ih by simp
qed

lemma rank_options_ranking:
  assumes "comparable_keys ar ors"
  shows "ranking_of (avg_best_two ar) ors (rank_options ar ors)"
proof -
  let ?stat = "avg_best_two ar"
  let ?g = "\<lambda>v. fl_rank (fl_neg (?stat v))"
  have nn: "\<forall>r \<in> set ors. ?stat r \<noteq> NaN" using assms by (simp add: comparable_keys_def)
  then have "\<forall>r \<in> set ors. fl_neg (?stat r) \<noteq> NaN" by (simp add: fl_neg_NaN)
  then have eq: "rank_options ar ors = sort_key ?g ors"
    unfolding rank_options_def by (rule py_sorted_rank)
  have m: "mset (rank_options ar ors) = mset ors" by (simp add: eq)
  have st: "set (rank_options ar ors) = set ors" by (simp add: eq)
  have "sorted (map ?g (sort_key ?g ors))" by (rule sorted_sort_key)
  then have "sorted_wrt (\<lambda>a b. ?g a \<le> ?g b) (rank_options ar ors)"
    by (simp add: eq sorted_map)
  moreover have "\<not> fl_lt (?stat a) (?stat b)"
    if "a \<in> set (rank_options ar ors)" "b \<in> set (rank_options ar ors)" "?g a \<le> ?g b" for a b
  proof -
    from that st nn have "?stat a \<noteq> NaN" "?stat b \<noteq> NaN" by auto
    then have "fl_lt (fl_neg (?stat b)) (fl_neg (?stat a)) \<longleftrightarrow> ?g b < ?g a"
      by (intro fl_lt_rank) (simp_all add: fl_neg_NaN)
    with that(3) show ?thesis by (simp add: fl_lt_neg not_less)
  qed
  ultimately have s: "sorted_wrt (\<lambda>a b. \<not> fl_lt (?stat a) (?stat b)) (rank_options ar ors)"
    by (rule sorted_wrt_mono_rel[rotated]) 
  have stable: "filter (\<lambda>x. ?stat x = ?stat r) (rank_options ar ors) = filter (\<lambda>x. ?stat x = ?stat r) ors"
    if r: "r \<in> set ors" for r
  proof -
    have k: "?g x = ?g r \<longleftrightarrow> ?stat x = ?stat r" if "x \<in> set ors" for x
    proof -
      from that r nn have "fl_neg (?stat x) \<noteq> NaN" "fl_neg (?stat r) \<noteq> NaN"
        by (simp_all add: fl_neg_NaN)
      then show ?thesis by (simp add: fl_rank_eq fl_neg_eq)
    qed
    have "filter (\<lambda>x. ?stat x = ?stat r) (rank_options ar ors)
        = filter (\<lambda>x. ?g x = ?g r) (rank_options ar ors)"
      using k st by (intro filter_cong) auto
    also have "\<dots> = filter (\<lambda>x. ?g x = ?g r) ors"
      unfolding eq by (rule sort_key_stable)
    also have "\<dots> = filter (\<lambda>x. ?stat x = ?stat r) ors"
      using k by (intro filter_cong) auto
    finally show ?thesis .
  qed
  from m s stable show ?thesis by (simp add: ranking_of_def)
qed

lemma sort_two_smallest:
  fixes xs :: "real list"
  assumes "2 \<le> length xs"
  shows "take 2 (sort xs) = two_smallest xs"
proof -
  obtain a b rest where s: "sort xs = a # b # rest"
    using assms by (metis length_sort Suc_le_length_iff numeral_2_eq_2)
  have srt: "sorted (a # b # rest)" using s by (metis sorted_sort)
  have ms: "mset xs = mset (a # b # rest)" using s by (metis mset_sort)
  then have st: "set xs = set (a # b # rest)" by (metis set_mset_mset)
  have a: "Min (set xs) = a"
    unfolding st using srt by (intro Min_eqI) auto
  have "mset (remove1 a xs) = mset (b # rest)" using ms by simp
  then have "set (remove1 a xs) = set (b # rest)" by (metis set_mset_mset)
  then have b: "Min (set (remove1 a xs)) = b"
    using srt by (intro Min_eqI) auto
  show ?thesis using s a b by (simp add: two_smallest_def)
qed

lemma avg_best_two_eq:
  assumes "2 \<le> length (eegs r)"
  shows "avg_best_two ar r = np_mean ar (map Fin (two_smallest (eegs r)))"
  by (simp add: avg_best_two_def sort_two_smallest[OF assms])

text \<open>The loop over the samples groups them by option; the comprehension over the ranking
  computes the confidences; the test decides.\<close>

lemma collect_None:
  assumes "collect order block ors acc = (None, ors', all')"
  shows "all' = acc @ map eeg block \<and> length ors' = length ors
     \<and> (\<forall>i < length ors. ors' ! i = (ors ! i)
           \<lparr>eegs := eegs (ors ! i) @ map eeg (samples_of order block i),
            sort_positions := sort_positions (ors ! i) @ map sort_position (samples_of order block i)\<rparr>)"
  using assms
proof (induction block arbitrary: ors acc)
  case Nil
  then show ?case by (simp add: samples_of_def)
next
  case (Cons r rs)
  from Cons.prems obtain k where k: "py_get order (image_id r - 1) = Inr k" and kl: "k < length ors"
    by (auto split: sum.splits if_splits)
  let ?u = "(ors ! k)\<lparr>eegs := eegs (ors ! k) @ [eeg r],
                      sort_positions := sort_positions (ors ! k) @ [sort_position r]\<rparr>"
  let ?ors1 = "ors[k := ?u]"
  have rec: "collect order rs ?ors1 (acc @ [eeg r]) = (None, ors', all')"
    using Cons.prems k kl by simp
  note ih = Cons.IH[OF rec]
  have a: "all' = acc @ map eeg (r # rs)" using ih by simp
  have l: "length ors' = length ors" using ih by simp
  have n: "ors' ! i = (ors ! i)
           \<lparr>eegs := eegs (ors ! i) @ map eeg (samples_of order (r # rs) i),
            sort_positions := sort_positions (ors ! i) @ map sort_position (samples_of order (r # rs) i)\<rparr>"
    if i: "i < length ors" for i
  proof -
    have step: "ors' ! i = (?ors1 ! i)
           \<lparr>eegs := eegs (?ors1 ! i) @ map eeg (samples_of order rs i),
            sort_positions := sort_positions (?ors1 ! i) @ map sort_position (samples_of order rs i)\<rparr>"
      using ih i by simp
    show ?thesis
    proof (cases "i = k")
      case True
      then have "samples_of order (r # rs) i = r # samples_of order rs i"
        using k by (simp add: samples_of_def resolved_def)
      with step True kl show ?thesis by simp
    next
      case False
      then have "samples_of order (r # rs) i = samples_of order rs i"
        using k by (simp add: samples_of_def resolved_def)
      with step False show ?thesis by simp
    qed
  qed
  from a l n show ?case by blast
qed

lemma collect_grouped:
  assumes "new_option_results (options t) (option_counts t) = Inr ors0"
    "collect (index_list t) block ors0 [] = (None, ors, all_eegs)"
  shows "ors = grouped t block \<and> all_eegs = map eeg block"
proof -
  from assms(1) have ors0: "ors0 = map (\<lambda>(i, opt). \<lparr>eegs = [], sort_positions = [], idx = opt,
                               expected_counts = option_counts t ! i\<rparr>) (enumerate 0 (options t))"
    by (auto simp: new_option_results_def split: if_splits)
  note c = collect_None[OF assms(2)]
  have len: "length ors = length (grouped t block)"
    using c by (simp add: ors0 grouped_def)
  have "ors ! i = grouped t block ! i" if "i < length ors" for i
  proof -
    from that len have i: "i < length (options t)" by (simp add: grouped_def)
    then have "i < length ors0" by (simp add: ors0)
    with c have "ors ! i = (ors0 ! i)
           \<lparr>eegs := eegs (ors0 ! i) @ map eeg (samples_of (index_list t) block i),
            sort_positions := sort_positions (ors0 ! i) @ map sort_position (samples_of (index_list t) block i)\<rparr>"
      by blast
    then show ?thesis using i by (simp add: ors0 grouped_def nth_enumerate_eq)
  qed
  with len have "ors = grouped t block" by (intro nth_equalityI) simp_all
  with c show ?thesis by simp
qed

lemma confidence_Inr:
  "confidence ar (np_median ar (map Fin all_values)) (np_std ar (map Fin all_values)) r = Inr c
     \<Longrightarrow> c = spec_confidence ar all_values r"
  by (auto simp: confidence_def percentage_correct_def spec_confidence_def
      spec_percentage_correct_def spec_z_def z_def average_eeg_def Let_def
      split: sum.splits if_splits)

lemma try_map_Inr:
  "try_map f xs = Inr ys \<Longrightarrow> (\<And>x y. f x = Inr y \<Longrightarrow> y = g x) \<Longrightarrow> ys = map g xs"
proof (induction xs arbitrary: ys)
  case Nil
  then show ?case by simp
next
  case (Cons x xs)
  from Cons.prems(1) obtain y ys' where y: "f x = Inr y" and r: "try_map f xs = Inr ys'"
    and e: "ys = y # ys'"
    by (auto split: sum.splits)
  from Cons.IH[OF r Cons.prems(2)] Cons.prems(2)[OF y] e show ?case by simp
qed

lemma scored_Some:
  assumes "scored ar t block = Some res"
  shows "rank_result ar (grouped t block) (map eeg block) = Inr res
     \<and> snd (process_results ar t block)
         = t\<lparr>results := Some block, option_results := Some (grouped t block)\<rparr>
     \<and> fst (process_results ar t block) = accept ar res"
proof -
  from assms obtain ors0 ors all_eegs where
    n: "new_option_results (options t) (option_counts t) = Inr ors0" and
    c: "collect (index_list t) block ors0 [] = (None, ors, all_eegs)" and
    r: "rank_result ar ors all_eegs = Inr res"
    by (auto simp: scored_def split: sum.splits prod.splits option.splits)
  from collect_grouped[OF n c] have g: "ors = grouped t block" "all_eegs = map eeg block" by simp_all
  show ?thesis using n c r g by (simp add: process_results_def Let_def)
qed

lemma rank_result_Inr:
  assumes "rank_result ar ors all_eegs = Inr res"
  shows "option_ids res = map idx (rank_options ar ors)
     \<and> confidences res = map (spec_confidence ar all_eegs) (rank_options ar ors)"
proof -
  let ?med = "np_median ar (map Fin all_eegs)" and ?sd = "np_std ar (map Fin all_eegs)"
  from assms obtain confs where
    t: "try_map (confidence ar ?med ?sd) (rank_options ar ors) = Inr confs" and
    res: "res = \<lparr>option_ids = map idx (rank_options ar ors), confidences = confs\<rparr>"
    by (auto simp: rank_result_def Let_def split: sum.splits)
  have "confs = map (spec_confidence ar all_eegs) (rank_options ar ors)"
    using t by (rule try_map_Inr) (rule confidence_Inr)
  with res show ?thesis by simp
qed




text \<open>The examples, computed.\<close>

lemma exact_fields:
  "f_sub exact = exact_sub" "f_mul exact = exact_mul" "f_div exact = exact_div"
  "np_mean exact = exact_mean" "np_std exact = exact_std" "np_median exact = exact_median"
  by (simp_all add: exact_def)


lemma sample_median: "np_median exact (map Fin (map eeg sample_block)) = Fin 1"
  by (simp add: sample_block_def exact_fields exact_median_def)

lemma sample_std: "np_std exact (map Fin (map eeg sample_block)) = Fin 1"
  by (simp add: sample_block_def exact_fields exact_std_def exact_mean_def exact_sum_def
      exact_sub_def)

lemma two_option_grouped: "grouped two_option_trial sample_block = [low_option, high_option]"
  by (simp add: grouped_def samples_of_def resolved_def py_get_def two_option_trial_def
      sample_block_def low_option_def high_option_def)


lemma example_statistics:
  "avg_best_two exact low_option = Fin 0" "avg_best_two exact high_option = Fin 2"
  "avg_best_two exact (single_option opt) = Fin 2"
  by (simp_all add: avg_best_two_def exact_fields exact_mean_def exact_sum_def
      low_option_def high_option_def single_option_def)

lemma two_option_comparable: "comparable_keys exact (grouped two_option_trial sample_block)"
  by (simp add: two_option_grouped comparable_keys_def example_statistics)


lemma two_option_collect:
  "collect [0, 1, 0, 1] sample_block
     [\<lparr>eegs = [], sort_positions = [], idx = 10, expected_counts = 2\<rparr>,
      \<lparr>eegs = [], sort_positions = [], idx = 20, expected_counts = 2\<rparr>] []
   = (None, [low_option, high_option], map eeg sample_block)"
  by (simp add: sample_block_def py_get_def low_option_def high_option_def)


lemma two_option_ranking:
  "rank_options exact [low_option, high_option] = [high_option, low_option]"
  by (simp add: rank_options_def py_sorted_def example_statistics)


lemma low_confidence: "confidence exact (Fin 1) (Fin 1) low_option = Inr (Fin 1)"
  by (simp add: confidence_def percentage_correct_def z_def exact_fields exact_sub_def fl_gt_def
      average_eeg_def exact_mean_def exact_sum_def low_option_def)

lemma high_confidence: "confidence exact (Fin 1) (Fin 1) high_option = Inr (Fin (- 1))"
  by (simp add: confidence_def percentage_correct_def z_def exact_fields exact_sub_def fl_gt_def
      average_eeg_def exact_mean_def exact_sum_def high_option_def)


lemma two_option_rank_result:
  "rank_result exact [low_option, high_option] (map eeg sample_block)
     = Inr \<lparr>option_ids = [20, 10], confidences = [Fin (- 1), Fin 1]\<rparr>"
  unfolding rank_result_def two_option_ranking sample_median sample_std
  by (simp add: low_confidence high_confidence) (simp add: low_option_def high_option_def)


lemma two_option_scored:
  "scored exact two_option_trial sample_block
     = Some \<lparr>option_ids = [20, 10], confidences = [Fin (- 1), Fin 1]\<rparr>"
proof -
  have n: "new_option_results (options two_option_trial) (option_counts two_option_trial)
      = Inr [\<lparr>eegs = [], sort_positions = [], idx = 10, expected_counts = 2\<rparr>,
             \<lparr>eegs = [], sort_positions = [], idx = 20, expected_counts = 2\<rparr>]"
    by (simp add: new_option_results_def two_option_trial_def)
  have i: "index_list two_option_trial = [0, 1, 0, 1]" by (simp add: two_option_trial_def)
  show ?thesis
    unfolding scored_def n i sum.case two_option_collect prod.case option.case
      two_option_rank_result by simp
qed




section \<open>The claims\<close>

text \<open>
  Claim C1, as the code has it.  For every option with at least two samples,
  \<open>avg_best_two\<close> is \<open>np.mean\<close> of the two smallest signal values of the option.  When
  no option has NaN for this statistic, \<open>option_ids\<close> lists the options in a ranking by
  it: a rearrangement of the option results in which the statistic never increases from
  one position to the next and equal statistics keep their order.
\<close>

theorem best_two_ranking:
  assumes "scored ar t block = Some res" and "comparable_keys ar (grouped t block)"
  shows "(\<forall>r \<in> set (grouped t block).
            2 \<le> length (eegs r) \<longrightarrow>
              avg_best_two ar r = np_mean ar (map Fin (two_smallest (eegs r))))
     \<and> (\<exists>ranked. ranking_of (avg_best_two ar) (grouped t block) ranked
            \<and> option_ids res = map idx ranked)"
proof -
  have a: "\<forall>r \<in> set (grouped t block).
      2 \<le> length (eegs r) \<longrightarrow> avg_best_two ar r = np_mean ar (map Fin (two_smallest (eegs r)))"
    by (simp add: avg_best_two_eq)
  have "rank_result ar (grouped t block) (map eeg block) = Inr res"
    using scored_Some[OF assms(1)] by simp
  then have "option_ids res = map idx (rank_options ar (grouped t block))"
    using rank_result_Inr by blast
  with rank_options_ranking[OF assms(2)]
  have "\<exists>ranked. ranking_of (avg_best_two ar) (grouped t block) ranked
            \<and> option_ids res = map idx ranked"
    by blast
  with a show ?thesis by blast
qed

theorem best_two_ranking_witness:
  "2 \<le> length (eegs low_option) \<and> 2 \<le> length (eegs high_option)
   \<and> avg_best_two exact low_option = np_mean exact [Fin 0, Fin 0]
   \<and> avg_best_two exact high_option = np_mean exact [Fin 2, Fin 2]
   \<and> avg_best_two exact low_option = Fin 0 \<and> avg_best_two exact high_option = Fin 2
   \<and> (\<exists>ranked. ranking_of (avg_best_two exact) [low_option, high_option] ranked
          \<and> [20, 10] = map idx ranked)"
proof -
  have l: "2 \<le> length (eegs low_option)" "2 \<le> length (eegs high_option)"
    by (simp_all add: low_option_def high_option_def)
  have ts: "two_smallest (eegs low_option) = [0, 0]" "two_smallest (eegs high_option) = [2, 2]"
    by (simp_all add: two_smallest_def low_option_def high_option_def)
  note th = best_two_ranking[OF two_option_scored two_option_comparable,
      unfolded two_option_grouped]
  from th l have "avg_best_two exact low_option = np_mean exact (map Fin (two_smallest (eegs low_option)))"
    "avg_best_two exact high_option = np_mean exact (map Fin (two_smallest (eegs high_option)))"
    by simp_all
  then have m: "avg_best_two exact low_option = np_mean exact [Fin 0, Fin 0]"
    "avg_best_two exact high_option = np_mean exact [Fin 2, Fin 2]"
    by (simp_all add: ts)
  from th have "\<exists>ranked. ranking_of (avg_best_two exact) [low_option, high_option] ranked
          \<and> [20, 10] = map idx ranked"
    by simp
  with l m example_statistics(1,2) show ?thesis by blast
qed

text \<open>
  Claim C1 as stated fails: for the samples 1, 2, 3 the statistic is 3/2, the mean of the
  two smallest, and not 5/2, the mean of the two largest.
\<close>

theorem best_two_not_largest:
  "avg_best_two exact \<lparr>eegs = [1, 2, 3], sort_positions = [0, 0, 0], idx = 10, expected_counts = 3\<rparr>
     \<noteq> np_mean exact (map Fin (two_largest [1, 2, 3]))
   \<and> avg_best_two exact \<lparr>eegs = [1, 2, 3], sort_positions = [0, 0, 0], idx = 10, expected_counts = 3\<rparr>
     = Fin (3 / 2)
   \<and> np_mean exact (map Fin (two_largest [1, 2, 3])) = Fin (5 / 2)"
  by (simp add: avg_best_two_def exact_fields exact_mean_def exact_sum_def two_largest_def)

text \<open>
  Claim C2.  \<open>_construct_trial\<close> shuffles the greedy order as a whole.  For two options
  and counts \<open>[2, 2]\<close> the greedy order is \<open>[0, 1, 0, 1]\<close>, and the generator draws below
  make the shuffle return \<open>[0, 0, 1, 1]\<close>: option 0 is shown twice in a row while option 1
  is still to come.
\<close>

theorem shuffle_breaks_nonadjacency:
  "construct_trial (\<lambda>i. if i = 2 then 3 else 1) 0 2 3 [10, 20 :: int]
     = Some (Inr ([0, 0, 1, 1], [2, 2], 5))
   \<and> nonadjacent [2, 2] = Some [0, 1, 0, 1]
   \<and> adjacent_only_in_tail [0, 1, 0, 1]
   \<and> \<not> adjacent_only_in_tail [0, 0, 1, 1]"
proof -
  have "construct_trial (\<lambda>i. if i = 2 then 3 else 1) 0 2 3 [10, 20 :: int]
     = Some (Inr ([0, 0, 1, 1], [2, 2], 5))"
    by (simp only: construct_trial_def draw_counts_two_twice nonadjacent_two_twice
        shuffle_two_twice sum.case prod.case option.case Let_def)
  moreover have "adjacent_only_in_tail [0, 1, 0, 1]" by simp
  moreover have "\<not> adjacent_only_in_tail [0, 0, 1, 1]" by simp
  ultimately show ?thesis using nonadjacent_two_twice by blast
qed




text \<open>
  Claim C4.  With three options and \<open>min_repeat = max_repeat = 3\<close> the constructor does not
  build a trial: \<open>random.randrange(3, 3)\<close> has an empty range and raises \<open>ValueError\<close>,
  whatever the generator state.
\<close>

theorem equal_repeat_bounds_raise:
  "Trial_init src pos [a, b, c] ptime itime 3 3 = Some (Inl ValueError)"
  by (simp add: Trial_init_def construct_trial_def randrange_def)



text \<open>
  Claim C6.  From a freshly built trial with at least one option, \<open>2 + len(index_list)\<close>
  calls of \<open>show_next_image\<close> return the preview time, then the flash time once per
  entry of the order (showing that entry), then 0; the modes after the calls are
  \<open>PREVIEW\<close>, \<open>RUNNING\<close> for every flash, and \<open>COMPLETED\<close>.  In \<open>COMPLETED\<close> and
  \<open>ABORTED\<close> a call returns 0 and changes nothing.
\<close>

theorem advance_cycle:
  assumes "Trial_init src pos opts ptime itime minr maxr = Some (Inr t)" and "opts \<noteq> []"
  shows "map fst (advance_n (2 + length (index_list t)) t) =
           Inr (ptime, PreviewFrame) # map (\<lambda>i. Inr (itime, FlashFrame i)) (index_list t)
             @ [Inr (0, NoFrame)]
         \<and> map (mode \<circ> snd) (advance_n (2 + length (index_list t)) t) =
           PREVIEW # replicate (length (index_list t)) RUNNING @ [COMPLETED]
         \<and> (\<forall>u. mode u = COMPLETED \<or> mode u = ABORTED \<longrightarrow>
               show_next_image u = (Inr (0, NoFrame), u))"
proof -
  note r = Trial_init_result[OF assms(1)]
  have wf: "well_formed t" using Trial_init_well_formed[OF assms(1)] .
  have fc: "advance_n (2 + length (index_list t)) t =
     (Inr (preview_time t, PreviewFrame), t\<lparr>mode := PREVIEW\<rparr>)
     # map (\<lambda>j. (Inr (image_time t, FlashFrame (index_list t ! j)),
                  t\<lparr>mode := RUNNING, index_ptr := int j\<rparr>)) [0 ..< length (index_list t)]
     @ [(Inr (0, NoFrame), t\<lparr>mode := COMPLETED, index_ptr := int (length (index_list t))\<rparr>)]"
    using r assms(2) wf by (intro full_cycle) simp_all
  have nth: "map (\<lambda>j. Inr (itime, FlashFrame (index_list t ! j))) [0 ..< length (index_list t)]
      = map (\<lambda>i. Inr (itime, FlashFrame i)) (index_list t)" (is "?l = ?r")
    by (rule nth_equalityI) simp_all
  have a: "map fst (advance_n (2 + length (index_list t)) t) =
           Inr (ptime, PreviewFrame) # map (\<lambda>i. Inr (itime, FlashFrame i)) (index_list t)
             @ [Inr (0, NoFrame)]"
    unfolding fc using r nth by (simp add: comp_def)
  have b: "map (mode \<circ> snd) (advance_n (2 + length (index_list t)) t) =
           PREVIEW # replicate (length (index_list t)) RUNNING @ [COMPLETED]"
    unfolding fc by (simp add: comp_def map_replicate_const)
  have c: "\<forall>u. mode u = COMPLETED \<or> mode u = ABORTED \<longrightarrow>
               show_next_image u = (Inr (0, NoFrame), u)"
    by (auto simp: show_next_image_def)
  from a b c show ?thesis by blast
qed

theorem advance_cycle_witness:
  "map fst (advance_n 4 example_trial) =
      [Inr (1000, PreviewFrame), Inr (250, FlashFrame 1), Inr (250, FlashFrame 0), Inr (0, NoFrame)]
   \<and> map (mode \<circ> snd) (advance_n 4 example_trial) = [PREVIEW, RUNNING, RUNNING, COMPLETED]
   \<and> mode (example_trial\<lparr>mode := COMPLETED\<rparr>) = COMPLETED
   \<and> show_next_image (example_trial\<lparr>mode := COMPLETED\<rparr>)
        = (Inr (0, NoFrame), example_trial\<lparr>mode := COMPLETED\<rparr>)"
proof -
  have ne: "[10, 20 :: int] \<noteq> []" by simp
  have len: "2 + length (index_list example_trial) = 4" by (simp add: example_trial_def)
  have il: "index_list example_trial = [1, 0]" by (simp add: example_trial_def)
  have m: "mode (example_trial\<lparr>mode := COMPLETED\<rparr>) = COMPLETED" by simp
  from advance_cycle[OF Trial_init_example ne, unfolded len, unfolded il] m show ?thesis
    by simp
qed

text \<open>
  Claim C7.  \<open>reset\<close> returns the preview time, sets the mode to \<open>INIT\<close> and the cursor
  to 0, and leaves the order and the counts as they are; the calls that follow show the
  preview and then the entries of the unchanged order, one flash each.
\<close>

theorem reset_frame:
  "fst (reset t) = preview_time t
   \<and> mode (snd (reset t)) = INIT \<and> index_ptr (snd (reset t)) = 0
   \<and> index_list (snd (reset t)) = index_list t
   \<and> option_counts (snd (reset t)) = option_counts t
   \<and> (well_formed t \<and> options t \<noteq> [] \<longrightarrow>
        map fst (advance_n (2 + length (index_list t)) (snd (reset t))) =
          Inr (preview_time t, PreviewFrame)
          # map (\<lambda>i. Inr (image_time t, FlashFrame i)) (index_list t) @ [Inr (0, NoFrame)])"
proof -
  let ?t = "snd (reset t)"
  have replay: "map fst (advance_n (2 + length (index_list t)) ?t) =
          Inr (preview_time t, PreviewFrame)
          # map (\<lambda>i. Inr (image_time t, FlashFrame i)) (index_list t) @ [Inr (0, NoFrame)]"
    if wf: "well_formed t" and ne: "options t \<noteq> []"
  proof -
    have "advance_n (2 + length (index_list ?t)) ?t =
       (Inr (preview_time ?t, PreviewFrame), ?t\<lparr>mode := PREVIEW\<rparr>)
       # map (\<lambda>j. (Inr (image_time ?t, FlashFrame (index_list ?t ! j)),
                  ?t\<lparr>mode := RUNNING, index_ptr := int j\<rparr>)) [0 ..< length (index_list ?t)]
       @ [(Inr (0, NoFrame), ?t\<lparr>mode := COMPLETED, index_ptr := int (length (index_list ?t))\<rparr>)]"
      using wf ne by (intro full_cycle) (simp_all add: reset_def well_formed_def)
    moreover have "map (\<lambda>j. Inr (image_time t, FlashFrame (index_list t ! j))) [0 ..< length (index_list t)]
      = map (\<lambda>i. Inr (image_time t, FlashFrame i)) (index_list t)"
      by (rule nth_equalityI) simp_all
    moreover have "index_list ?t = index_list t" "preview_time ?t = preview_time t"
      "image_time ?t = image_time t"
      by (simp_all add: reset_def)
    ultimately show ?thesis by (simp add: comp_def)
  qed
  then show ?thesis by (simp add: reset_def)
qed

theorem reset_frame_witness:
  "well_formed (example_trial\<lparr>mode := COMPLETED, index_ptr := 2\<rparr>)
   \<and> options (example_trial\<lparr>mode := COMPLETED, index_ptr := 2\<rparr>) \<noteq> []
   \<and> reset (example_trial\<lparr>mode := COMPLETED, index_ptr := 2\<rparr>) = (1000, example_trial)
   \<and> map fst (advance_n 4 example_trial) =
      [Inr (1000, PreviewFrame), Inr (250, FlashFrame 1), Inr (250, FlashFrame 0), Inr (0, NoFrame)]"
proof -
  let ?c = "example_trial\<lparr>mode := COMPLETED, index_ptr := 2\<rparr>"
  have wf: "well_formed ?c" by (simp add: well_formed_def example_trial_def)
  have ne: "options ?c \<noteq> []" by (simp add: example_trial_def)
  have rs: "reset ?c = (1000, example_trial)" by (simp add: reset_def example_trial_def)
  have len: "2 + length (index_list ?c) = 4" by (simp add: example_trial_def)
  have "map fst (advance_n 4 example_trial) =
      [Inr (1000, PreviewFrame), Inr (250, FlashFrame 1), Inr (250, FlashFrame 0), Inr (0, NoFrame)]"
    using reset_frame[of ?c, unfolded len, unfolded rs] wf ne by (simp add: example_trial_def)
  with wf ne rs show ?thesis by blast
qed



text \<open>
  Claim C9.  \<open>process_results\<close>, whether it returns or raises, leaves the mode, the
  cursor, the order and the counts of the trial unchanged: the trial after the call
  differs from the trial before it in the fields \<open>results\<close> and \<open>option_results\<close> only.
\<close>

theorem process_results_frame:
  "mode (snd (process_results ar t block)) = mode t
   \<and> index_ptr (snd (process_results ar t block)) = index_ptr t
   \<and> index_list (snd (process_results ar t block)) = index_list t
   \<and> option_counts (snd (process_results ar t block)) = option_counts t
   \<and> (snd (process_results ar t block))\<lparr>results := results t, option_results := option_results t\<rparr> = t
   \<and> results (snd (process_results ar t block)) = Some block"
  by (simp add: process_results_def Let_def split: sum.split prod.split option.split)

text \<open>
  Claim C10.  After any sequence of \<open>show_next_image\<close> and \<open>reset\<close> calls on a freshly
  built trial the cursor lies between 0 and the length of the order, and below that
  length whenever the mode is \<open>RUNNING\<close>.
\<close>

theorem cursor_in_bounds:
  assumes "Trial_init src pos opts ptime itime minr maxr = Some (Inr t)"
  shows "0 \<le> index_ptr (fold do_call cs t)
         \<and> index_ptr (fold do_call cs t) \<le> int (length (index_list (fold do_call cs t)))
         \<and> (mode (fold do_call cs t) = RUNNING \<longrightarrow>
              index_ptr (fold do_call cs t) < int (length (index_list (fold do_call cs t))))"
proof -
  have "cursor_ok t" using Trial_init_result[OF assms] by (simp add: cursor_ok_def)
  then have "cursor_ok (fold do_call cs t)" by (rule fold_do_call_cursor_ok)
  then show ?thesis by (simp add: cursor_ok_def)
qed

theorem cursor_in_bounds_witness:
  "mode (fold do_call [Advance, Advance, Reset, Advance, Advance, Advance] example_trial) = RUNNING
   \<and> index_ptr (fold do_call [Advance, Advance, Reset, Advance, Advance, Advance] example_trial) = 1
   \<and> index_ptr (fold do_call [Advance, Advance, Reset, Advance, Advance, Advance] example_trial)
       < int (length (index_list (fold do_call [Advance, Advance, Reset, Advance, Advance, Advance] example_trial)))"
proof -
  let ?cs = "[Advance, Advance, Reset, Advance, Advance, Advance]"
  have st: "fold do_call ?cs example_trial = example_trial\<lparr>mode := RUNNING, index_ptr := 1\<rparr>"
    by (simp add: show_next_image_def reset_def py_get_def example_trial_def)
  have m: "mode (fold do_call ?cs example_trial) = RUNNING" unfolding st by simp
  from cursor_in_bounds[OF Trial_init_example, of ?cs] m show ?thesis
    unfolding st by simp
qed

end
